theory Spec2Isabelle
  imports Main "HOL-Library.Sublist"
begin

section \<open>Strings as Python sees them\<close>

text \<open>
  The script \<^verbatim>\<open>update_agents_with_serena.py\<close> works on Python \<^verbatim>\<open>str\<close> values. A text is
  modelled as a \<^typ>\<open>string\<close>, one \<^typ>\<open>char\<close> per code point, which covers the code points
  below 256. Files are opened in text mode, so the content of a file is the decoded text
  and a line break is the single character \<^verbatim>\<open>\n\<close>.
\<close>

definition nl :: char where
  "nl = CHR 0x0A"

text \<open>\<^verbatim>\<open>str.isspace\<close> on one character, for the code points below 256.\<close>

definition isspace :: "char \<Rightarrow> bool" where
  "isspace c = (c \<in> set [CHR 0x09, CHR 0x0A, CHR 0x0B, CHR 0x0C, CHR 0x0D,
                          CHR 0x1C, CHR 0x1D, CHR 0x1E, CHR 0x1F, CHR 0x20,
                          CHR 0x85, CHR 0xA0])"

text \<open>\<^verbatim>\<open>s.strip()\<close>: white space is removed at both ends.\<close>

definition strip :: "string \<Rightarrow> string" where
  "strip s = rev (dropWhile isspace (rev (dropWhile isspace s)))"

text \<open>\<^verbatim>\<open>s.lower()\<close>, character by character (below 256 no character changes the length).\<close>

definition lower_char :: "char \<Rightarrow> char" where
  "lower_char c =
     (let n = (of_char c :: nat)
      in if (65 \<le> n \<and> n \<le> 90) \<or> (192 \<le> n \<and> n \<le> 222 \<and> n \<noteq> 215)
         then char_of (n + 32) else c)"

definition lower :: "string \<Rightarrow> string" where
  "lower s = map lower_char s"

text \<open>\<^verbatim>\<open>s.startswith(p)\<close>.\<close>

definition startswith :: "string \<Rightarrow> string \<Rightarrow> bool" where
  "startswith s p = (take (length p) s = p)"

text \<open>\<^verbatim>\<open>p in s\<close>: \<open>p\<close> occurs in \<open>s\<close> as a contiguous piece.\<close>

fun str_in :: "string \<Rightarrow> string \<Rightarrow> bool" where
  "str_in p [] = (p = [])"
| "str_in p (c # cs) = (startswith (c # cs) p \<or> str_in p cs)"

text \<open>
  \<^verbatim>\<open>s.split('\n')\<close>: never empty, the empty text has the one line \<^verbatim>\<open>''\<close>. (The
  split of the rest is computed once; its being empty does not occur, see
  \<open>split_nl_nonempty\<close> below.)
\<close>

fun split_nl :: "string \<Rightarrow> string list" where
  "split_nl [] = [[]]"
| "split_nl (c # cs) =
     (if c = nl then [] # split_nl cs
      else (case split_nl cs of l # ls \<Rightarrow> (c # l) # ls | [] \<Rightarrow> [[c]]))"

text \<open>\<^verbatim>\<open>'\n'.join(ls)\<close>.\<close>

fun join_nl :: "string list \<Rightarrow> string" where
  "join_nl [] = []"
| "join_nl [l] = l"
| "join_nl (l # m # ls) = l @ nl # join_nl (m # ls)"

section \<open>The locator\<close>

definition heading :: string where
  "heading = ''## Serena MCP Integration''"

text \<open>\<^verbatim>\<open>already_has_serena_section\<close>.\<close>

definition already_has_serena_section :: "string \<Rightarrow> bool" where
  "already_has_serena_section content =
     (str_in heading content \<or> str_in ''serena'' (lower content))"

text \<open>
  A \<^verbatim>\<open>for\<close> loop over line indices that stops with \<^verbatim>\<open>break\<close> at the first line
  satisfying a test: the index found, or \<open>None\<close> when the loop runs to the end.
\<close>

function first_from :: "(string \<Rightarrow> bool) \<Rightarrow> string list \<Rightarrow> nat \<Rightarrow> nat option" where
  "first_from P lines i =
     (if i < length lines
      then (if P (lines ! i) then Some i else first_from P lines (Suc i))
      else None)"
  by pat_completeness auto
termination
  by (relation "measure (\<lambda>(P, lines, i). length lines - i)") auto

declare first_from.simps [simp del]

text \<open>
  The three \<^verbatim>\<open>while\<close> loops that step an index down over blank lines:
  \<^verbatim>\<open>while e > lo and lines[e - 1].strip() == '': e -= 1\<close>.
\<close>

fun back_up :: "string list \<Rightarrow> nat \<Rightarrow> nat \<Rightarrow> nat" where
  "back_up lines lo 0 = 0"
| "back_up lines lo (Suc n) =
     (if Suc n > lo \<and> strip (lines ! n) = [] then back_up lines lo n else Suc n)"

definition is_section_start :: "string \<Rightarrow> bool" where
  "is_section_start line = (strip line = heading)"

definition is_next_section :: "string \<Rightarrow> bool" where
  "is_next_section line =
     (startswith (strip line) ''## '' \<and> \<not> startswith (strip line) ''### '')"

text \<open>\<^verbatim>\<open>find_serena_section_bounds\<close>; \<open>None\<close> is the pair \<^verbatim>\<open>(None, None)\<close>.\<close>

definition find_serena_section_bounds :: "string \<Rightarrow> (nat \<times> nat) option" where
  "find_serena_section_bounds content =
     (let lines = split_nl content
      in case first_from is_section_start lines 0 of
           None \<Rightarrow> None
         | Some start_line \<Rightarrow>
             (let end_line = (case first_from is_next_section lines (start_line + 1) of
                                Some i \<Rightarrow> i
                              | None \<Rightarrow> length lines)
              in Some (start_line, back_up lines start_line end_line)))"

definition final_sections :: "string list" where
  "final_sections =
     [''## Example Interactions'', ''## Key Distinctions'', ''## Output Examples'',
      ''## Workflow Position'', ''## See Also'']"

text \<open>The inner loop of \<^verbatim>\<open>find_insertion_point\<close>, over the anchor list, with its \<^verbatim>\<open>break\<close>.\<close>

fun anchor_loop :: "string \<Rightarrow> string list \<Rightarrow> nat \<Rightarrow> nat \<Rightarrow> nat" where
  "anchor_loop line [] i insertion_line = insertion_line"
| "anchor_loop line (section # rest) i insertion_line =
     (if startswith (strip line) section then min insertion_line i
      else anchor_loop line rest i insertion_line)"

text \<open>The outer loop, over \<^verbatim>\<open>enumerate(lines)\<close>.\<close>

fun line_loop :: "string list \<Rightarrow> nat \<Rightarrow> nat \<Rightarrow> nat" where
  "line_loop [] i insertion_line = insertion_line"
| "line_loop (line # rest) i insertion_line =
     line_loop rest (Suc i) (anchor_loop line final_sections i insertion_line)"

text \<open>\<^verbatim>\<open>find_insertion_point\<close>.\<close>

definition find_insertion_point :: "string \<Rightarrow> nat" where
  "find_insertion_point content =
     (let lines = split_nl content;
          insertion_line = line_loop lines 0 (length lines)
      in if insertion_line = length lines then length lines
         else back_up lines 0 insertion_line)"

section \<open>The splicer and the run over all files\<close>

datatype py_error = FileNotFoundError

type_synonym files = "string \<rightharpoonup> string"

text \<open>
  \<^verbatim>\<open>update_agent_file\<close>: the file system is passed in and returned; opening a file
  that does not exist raises. The result holds the pair \<^verbatim>\<open>(success, message)\<close>.
\<close>

definition update_agent_file ::
  "files \<Rightarrow> string \<Rightarrow> string \<Rightarrow> py_error + ((bool \<times> string) \<times> files)" where
  "update_agent_file fs file_path template =
     (case fs file_path of
        None \<Rightarrow> Inl FileNotFoundError
      | Some content \<Rightarrow>
          (let lines = split_nl content;
               template_lines = split_nl template;
               has_serena = already_has_serena_section content
           in if has_serena then
                (case find_serena_section_bounds content of
                   None \<Rightarrow> Inr ((False, ''Could not find Serena section bounds''), fs)
                 | Some (start_line, end_line) \<Rightarrow>
                     (let start_line' = back_up lines 0 start_line;
                          new_lines = take start_line' lines @ [[], []] @ template_lines
                                        @ [[], []] @ drop end_line lines;
                          new_content = join_nl new_lines
                      in Inr ((True, ''Replaced existing Serena section''),
                              fs(file_path \<mapsto> new_content))))
              else
                (let insertion_point = find_insertion_point content;
                     new_lines = take insertion_point lines @ [[], []] @ template_lines
                                   @ [[], []] @ drop insertion_point lines;
                     new_content = join_nl new_lines
                 in Inr ((True, ''Added new Serena section''),
                         fs(file_path \<mapsto> new_content)))))"

text \<open>
  The state of the loop of \<^verbatim>\<open>main\<close>: the files, the lines printed for the documents
  (path, success flag and message of each, in order) and the four counters.
\<close>

record run_state =
  files_of :: files
  printed :: "(string \<times> bool \<times> string) list"
  updated_count :: nat
  replaced_count :: nat
  added_count :: nat
  failed_count :: nat

definition count_step :: "run_state \<Rightarrow> string \<Rightarrow> bool \<Rightarrow> string \<Rightarrow> files \<Rightarrow> run_state" where
  "count_step st path success message fs' =
     (if success then
        st\<lparr>files_of := fs',
           printed := printed st @ [(path, True, message)],
           updated_count := updated_count st + 1,
           replaced_count := (if str_in ''Replaced'' message
                              then replaced_count st + 1 else replaced_count st),
           added_count := (if \<not> str_in ''Replaced'' message \<and> str_in ''Added'' message
                           then added_count st + 1 else added_count st)\<rparr>
      else
        st\<lparr>files_of := fs',
           printed := printed st @ [(path, False, message)],
           failed_count := failed_count st + 1\<rparr>)"

text \<open>
  The loop \<^verbatim>\<open>for agent_file in agent_files\<close> of \<^verbatim>\<open>main\<close>; an exception of
  \<^verbatim>\<open>update_agent_file\<close> is not caught and ends the run.
\<close>

fun main_loop :: "string \<Rightarrow> string list \<Rightarrow> run_state \<Rightarrow> py_error + run_state" where
  "main_loop template [] st = Inr st"
| "main_loop template (agent_file # rest) st =
     (case update_agent_file (files_of st) agent_file template of
        Inl e \<Rightarrow> Inl e
      | Inr ((success, message), fs') \<Rightarrow>
          main_loop template rest (count_step st agent_file success message fs'))"

definition template_path :: string where
  "template_path = ''shared/serena-mcp/AGENT_TEMPLATE_SECTION.md''"

text \<open>
  \<^verbatim>\<open>main\<close>, with the sorted list that \<^verbatim>\<open>find_agent_files\<close> returns as a parameter:
  the template is read first, and a missing template ends the run before any document
  is opened.
\<close>

definition main :: "files \<Rightarrow> string list \<Rightarrow> py_error + run_state" where
  "main fs agent_files =
     (case fs template_path of
        None \<Rightarrow> Inl FileNotFoundError
      | Some template \<Rightarrow>
          main_loop template agent_files
            \<lparr>files_of = fs, printed = [], updated_count = 0, replaced_count = 0,
             added_count = 0, failed_count = 0\<rparr>)"

text \<open>
  The content of one document after \<^verbatim>\<open>update_agent_file\<close> has run on it: what the call
  wrote, or the old content when it wrote nothing.
\<close>

definition transform :: "string \<Rightarrow> string \<Rightarrow> string" where
  "transform content template =
     (case update_agent_file (Map.empty(''doc'' \<mapsto> content)) ''doc'' template of
        Inl e \<Rightarrow> content
      | Inr (r, fs') \<Rightarrow> (case fs' ''doc'' of Some c \<Rightarrow> c | None \<Rightarrow> content))"

section \<open>Notions used to state the properties\<close>

text \<open>A line whose trimmed text begins with one of the anchor strings.\<close>

definition starts_with_anchor :: "string \<Rightarrow> bool" where
  "starts_with_anchor line = (\<exists>section \<in> set final_sections. startswith (strip line) section)"

text \<open>
  The line at which the second loop of \<^verbatim>\<open>find_serena_section_bounds\<close> stops, before
  the blank lines are stepped over: the value of \<^verbatim>\<open>end_line\<close> after line 60.
\<close>

definition section_end :: "string list \<Rightarrow> nat \<Rightarrow> nat" where
  "section_end ls s =
     (case first_from is_next_section ls (s + 1) of Some i \<Rightarrow> i | None \<Rightarrow> length ls)"

text \<open>
  The specification's "heading of the same or higher level" as the target heading, which
  is a level-2 heading: a line that is a level-1 or a level-2 heading.
\<close>

definition heading_same_or_higher :: "string \<Rightarrow> bool" where
  "heading_same_or_higher line =
     (startswith (strip line) ''# '' \<or> startswith (strip line) ''## '')"

text \<open>The lines of a document that are not blank, in order.\<close>

definition nonblank_lines :: "string \<Rightarrow> string list" where
  "nonblank_lines content = filter (\<lambda>l. strip l \<noteq> []) (split_nl content)"

text \<open>Sample documents and a sample template.\<close>

abbreviation doc_anchor :: string where
  "doc_anchor \<equiv> ''# Title\<newline>\<newline>## Example Interactions\<newline>body''"

abbreviation doc_section :: string where
  "doc_section \<equiv> ''intro\<newline>\<newline>  ## Serena MCP Integration \<newline>old\<newline>\<newline>## See Also\<newline>tail''"

abbreviation doc_mention :: string where
  "doc_mention \<equiv> ''uses Serena tools''"

abbreviation tmpl :: string where
  "tmpl \<equiv> ''## Serena MCP Integration\<newline>new''"

section \<open>Strings: splitting, joining, containment\<close>

lemma split_nl_nonempty: "split_nl s \<noteq> []"
  by (induction s) (auto split: list.splits)

lemma split_nl_no_nl: "l \<in> set (split_nl s) \<Longrightarrow> nl \<notin> set l"
proof (induction s arbitrary: l)
  case Nil
  then show ?case by simp
next
  case (Cons c cs)
  show ?case
  proof (cases "c = nl")
    case True
    with Cons show ?thesis by auto
  next
    case False
    obtain m ms where ms: "split_nl cs = m # ms"
      using split_nl_nonempty [of cs] by (cases "split_nl cs") auto
    with Cons False show ?thesis by auto
  qed
qed

lemma split_nl_append:
  "nl \<notin> set l \<Longrightarrow> split_nl (l @ nl # s) = l # split_nl s"
  by (induction l) auto

lemma split_nl_line: "nl \<notin> set l \<Longrightarrow> split_nl l = [l]"
  by (induction l) auto

lemma split_join:
  "ls \<noteq> [] \<Longrightarrow> \<forall>l \<in> set ls. nl \<notin> set l \<Longrightarrow> split_nl (join_nl ls) = ls"
proof (induction ls rule: join_nl.induct)
  case 1
  then show ?case by simp
next
  case (2 l)
  then show ?case by (simp add: split_nl_line)
next
  case (3 l m ls)
  then show ?case by (simp add: split_nl_append)
qed

lemma join_split: "join_nl (split_nl s) = s"
proof (induction s)
  case Nil
  then show ?case by simp
next
  case (Cons c cs)
  obtain m ms where ms: "split_nl cs = m # ms"
    using split_nl_nonempty [of cs] by (cases "split_nl cs") auto
  show ?case
  proof (cases "c = nl")
    case True
    with Cons ms show ?thesis by simp
  next
    case False
    with Cons ms show ?thesis by (cases ms) auto
  qed
qed

lemma str_in_iff: "str_in p s \<longleftrightarrow> (\<exists>a b. s = a @ p @ b)"
proof (induction s)
  case Nil
  then show ?case by auto
next
  case (Cons c cs)
  have pre: "startswith (c # cs) p \<longleftrightarrow> (\<exists>b. c # cs = p @ b)"
    unfolding startswith_def
    by (metis append_eq_conv_conj append_take_drop_id)
  show ?case
  proof
    assume "str_in p (c # cs)"
    then consider "startswith (c # cs) p" | "str_in p cs" by auto
    then show "\<exists>a b. c # cs = a @ p @ b"
    proof cases
      case 1
      with pre obtain b where "c # cs = [] @ p @ b" by auto
      then show ?thesis by blast
    next
      case 2
      with Cons obtain a b where "cs = a @ p @ b" by auto
      then have "c # cs = (c # a) @ p @ b" by simp
      then show ?thesis by blast
    qed
  next
    assume "\<exists>a b. c # cs = a @ p @ b"
    then obtain a b where ab: "c # cs = a @ p @ b" by auto
    show "str_in p (c # cs)"
    proof (cases a)
      case Nil
      with ab have "\<exists>b. c # cs = p @ b" by auto
      with pre have "startswith (c # cs) p" by blast
      then show ?thesis by simp
    next
      case (Cons x xs)
      with ab have "cs = xs @ p @ b" by simp
      with Cons.IH show ?thesis by auto
    qed
  qed
qed

lemma line_in_join: "l \<in> set ls \<Longrightarrow> \<exists>a b. join_nl ls = a @ l @ b"
proof (induction ls rule: join_nl.induct)
  case 1
  then show ?case by simp
next
  case (2 m)
  then have "join_nl [m] = [] @ l @ []" by simp
  then show ?case by blast
next
  case (3 m k ls)
  show ?case
  proof (cases "l = m")
    case True
    then have "join_nl (m # k # ls) = [] @ l @ (nl # join_nl (k # ls))" by simp
    then show ?thesis by blast
  next
    case False
    with 3 obtain a b where "join_nl (k # ls) = a @ l @ b" by auto
    then have "join_nl (m # k # ls) = (m @ nl # a) @ l @ b" by simp
    then show ?thesis by blast
  qed
qed

lemma line_in_content: "l \<in> set (split_nl s) \<Longrightarrow> \<exists>a b. s = a @ l @ b"
  using line_in_join [of l "split_nl s"] by (simp add: join_split)

lemma strip_in_line: "\<exists>a b. l = a @ strip l @ b"
proof -
  let ?d = "dropWhile isspace l"
  have 1: "l = takeWhile isspace l @ ?d" by simp
  have "rev ?d = takeWhile isspace (rev ?d) @ dropWhile isspace (rev ?d)" by simp
  then have "?d = rev (dropWhile isspace (rev ?d)) @ rev (takeWhile isspace (rev ?d))"
    by (metis rev_append rev_rev_ident)
  then have "?d = strip l @ rev (takeWhile isspace (rev ?d))"
    by (simp add: strip_def)
  with 1 have "l = takeWhile isspace l @ strip l @ rev (takeWhile isspace (rev ?d))"
    by simp
  then show ?thesis by blast
qed

lemma heading_line_in_content:
  assumes "l \<in> set (split_nl s)" and "strip l = heading"
  shows "str_in heading s"
proof -
  obtain a b where "s = a @ l @ b" using line_in_content [OF assms(1)] by auto
  moreover obtain c d where "l = c @ heading @ d" using strip_in_line [of l] assms(2) by auto
  ultimately have "s = (a @ c) @ heading @ (d @ b)" by simp
  then show ?thesis unfolding str_in_iff by blast
qed

lemma serena_in_heading: "str_in ''serena'' (lower heading)"
  by code_simp

lemma heading_gives_keyword:
  assumes "str_in heading s" shows "str_in ''serena'' (lower s)"
proof -
  obtain a b where "s = a @ heading @ b" using assms unfolding str_in_iff by auto
  then have 1: "lower s = lower a @ lower heading @ lower b" by (simp add: lower_def)
  obtain c d where "lower heading = c @ ''serena'' @ d"
    using serena_in_heading unfolding str_in_iff by auto
  with 1 have "lower s = (lower a @ c) @ ''serena'' @ (d @ lower b)" by simp
  then show ?thesis unfolding str_in_iff by blast
qed

section \<open>The loops\<close>

lemma first_from_Some:
  "first_from P ls i = Some j \<longleftrightarrow>
     i \<le> j \<and> j < length ls \<and> P (ls ! j) \<and> (\<forall>k. i \<le> k \<and> k < j \<longrightarrow> \<not> P (ls ! k))"
proof (induction P ls i rule: first_from.induct)
  case (1 P ls i)
  show ?case
  proof (cases "i < length ls")
    case False
    then show ?thesis by (subst first_from.simps) auto
  next
    case inb: True
    show ?thesis
    proof (cases "P (ls ! i)")
      case True
      with inb have "first_from P ls i = Some i" by (subst first_from.simps) simp
      moreover have "(i \<le> j \<and> j < length ls \<and> P (ls ! j) \<and> (\<forall>k. i \<le> k \<and> k < j \<longrightarrow> \<not> P (ls ! k))) \<longleftrightarrow> j = i"
      proof
        assume a: "i \<le> j \<and> j < length ls \<and> P (ls ! j) \<and> (\<forall>k. i \<le> k \<and> k < j \<longrightarrow> \<not> P (ls ! k))"
        show "j = i"
        proof (rule ccontr)
          assume "j \<noteq> i"
          with a have "i \<le> i \<and> i < j" by simp
          with a have "\<not> P (ls ! i)" by blast
          with True show False by simp
        qed
      next
        assume "j = i"
        with True inb show "i \<le> j \<and> j < length ls \<and> P (ls ! j) \<and> (\<forall>k. i \<le> k \<and> k < j \<longrightarrow> \<not> P (ls ! k))"
          by auto
      qed
      ultimately show ?thesis by auto
    next
      case False
      with inb have eq: "first_from P ls i = first_from P ls (Suc i)"
        by (subst first_from.simps) simp
      have "(i \<le> j \<and> j < length ls \<and> P (ls ! j) \<and> (\<forall>k. i \<le> k \<and> k < j \<longrightarrow> \<not> P (ls ! k)))
            \<longleftrightarrow> (Suc i \<le> j \<and> j < length ls \<and> P (ls ! j) \<and> (\<forall>k. Suc i \<le> k \<and> k < j \<longrightarrow> \<not> P (ls ! k)))"
        using False by (metis Suc_leD Suc_leI le_less)
      with eq 1 inb False show ?thesis by simp
    qed
  qed
qed

lemma first_from_None:
  "first_from P ls i = None \<longleftrightarrow> (\<forall>k. i \<le> k \<and> k < length ls \<longrightarrow> \<not> P (ls ! k))"
proof (induction P ls i rule: first_from.induct)
  case (1 P ls i)
  show ?case
  proof (cases "i < length ls")
    case False
    then show ?thesis by (subst first_from.simps) auto
  next
    case inb: True
    show ?thesis
    proof (cases "P (ls ! i)")
      case True
      with inb have "first_from P ls i = Some i" by (subst first_from.simps) simp
      with True inb show ?thesis by auto
    next
      case False
      with inb have eq: "first_from P ls i = first_from P ls (Suc i)"
        by (subst first_from.simps) simp
      have "(\<forall>k. i \<le> k \<and> k < length ls \<longrightarrow> \<not> P (ls ! k))
            \<longleftrightarrow> (\<forall>k. Suc i \<le> k \<and> k < length ls \<longrightarrow> \<not> P (ls ! k))"
        using False by (metis Suc_leD Suc_leI le_less)
      with eq 1 inb False show ?thesis by simp
    qed
  qed
qed

lemma back_up_le: "back_up ls lo e \<le> e"
  by (induction e) auto

lemma back_up_ge: "lo \<le> e \<Longrightarrow> lo \<le> back_up ls lo e"
  by (induction e) auto

lemma back_up_blank:
  "back_up ls lo e \<le> k \<Longrightarrow> k < e \<Longrightarrow> strip (ls ! k) = []"
proof (induction e)
  case 0
  then show ?case by simp
next
  case (Suc n)
  show ?case
  proof (cases "Suc n > lo \<and> strip (ls ! n) = []")
    case True
    with Suc show ?thesis by (cases "k = n") auto
  next
    case False
    with Suc show ?thesis by auto
  qed
qed

lemma back_up_stop:
  "lo < back_up ls lo e \<Longrightarrow> strip (ls ! (back_up ls lo e - 1)) \<noteq> []"
  by (induction e) auto

lemma anchor_loop_gen:
  "anchor_loop line secs i il =
     (if \<exists>s \<in> set secs. startswith (strip line) s then min il i else il)"
  by (induction secs) auto

lemma anchor_loop_eq:
  "anchor_loop line final_sections i il = (if starts_with_anchor line then min il i else il)"
  by (simp add: anchor_loop_gen starts_with_anchor_def)

lemma line_loop_none:
  "\<forall>l \<in> set ls. \<not> starts_with_anchor l \<Longrightarrow> line_loop ls i il = il"
  by (induction ls arbitrary: i il) (auto simp: anchor_loop_eq)

lemma line_loop_le: "line_loop ls i il \<le> il"
proof (induction ls arbitrary: i il)
  case Nil
  then show ?case by simp
next
  case (Cons l ls)
  have "line_loop ls (Suc i) (anchor_loop l final_sections i il) \<le> anchor_loop l final_sections i il"
    by (rule Cons.IH)
  also have "\<dots> \<le> il" by (simp add: anchor_loop_eq)
  finally show ?case by simp
qed

lemma line_loop_ge: "m \<le> j \<Longrightarrow> m \<le> line_loop ls j m"
  by (induction ls arbitrary: j) (auto simp: anchor_loop_eq min_def)

lemma line_loop_first:
  "a < length ls \<Longrightarrow> starts_with_anchor (ls ! a) \<Longrightarrow> \<forall>k<a. \<not> starts_with_anchor (ls ! k)
     \<Longrightarrow> line_loop ls i il = min il (i + a)"
proof (induction ls arbitrary: i il a)
  case Nil
  then show ?case by simp
next
  case (Cons l ls)
  show ?case
  proof (cases a)
    case 0
    with Cons.prems have anc: "starts_with_anchor l" by simp
    have "line_loop ls (Suc i) (min il i) \<le> min il i" by (rule line_loop_le)
    moreover have "min il i \<le> line_loop ls (Suc i) (min il i)"
      by (rule line_loop_ge) simp
    ultimately have "line_loop ls (Suc i) (min il i) = min il i" by (rule le_antisym)
    with 0 anc show ?thesis by (simp add: anchor_loop_eq)
  next
    case (Suc b)
    with Cons.prems have nanc: "\<not> starts_with_anchor l" by auto
    from Suc Cons.prems have "b < length ls" "starts_with_anchor (ls ! b)"
      "\<forall>k<b. \<not> starts_with_anchor (ls ! k)" by auto
    from Cons.IH [OF this] have "line_loop ls (Suc i) il = min il (Suc i + b)" .
    with nanc Suc show ?thesis by (simp add: anchor_loop_eq)
  qed
qed

section \<open>Section bounds and the three outcomes of an update\<close>

lemma startswith_iff: "startswith s p \<longleftrightarrow> (\<exists>b. s = p @ b)"
  unfolding startswith_def by (metis append_eq_conv_conj append_take_drop_id)

lemma level2_not_level3:
  assumes "startswith s ''## ''" shows "\<not> startswith s ''### ''"
proof
  assume "startswith s ''### ''"
  then obtain b where "s = ''### '' @ b" unfolding startswith_iff by auto
  moreover from assms obtain b' where "s = ''## '' @ b'" unfolding startswith_iff by auto
  ultimately show False by simp
qed

lemma is_next_section_iff: "is_next_section l \<longleftrightarrow> startswith (strip l) ''## ''"
  using level2_not_level3 [of "strip l"] by (auto simp: is_next_section_def)

lemma bounds_None:
  "find_serena_section_bounds c = None \<longleftrightarrow> (\<forall>l \<in> set (split_nl c). strip l \<noteq> heading)"
proof -
  have "find_serena_section_bounds c = None \<longleftrightarrow> first_from is_section_start (split_nl c) 0 = None"
    by (simp add: find_serena_section_bounds_def Let_def split: option.splits)
  also have "\<dots> \<longleftrightarrow> (\<forall>k < length (split_nl c). strip (split_nl c ! k) \<noteq> heading)"
    by (simp add: first_from_None is_section_start_def)
  also have "\<dots> \<longleftrightarrow> (\<forall>l \<in> set (split_nl c). strip l \<noteq> heading)"
    by (metis in_set_conv_nth)
  finally show ?thesis .
qed

lemma section_end_cases:
  "(section_end ls s = length ls \<and> first_from is_next_section ls (s + 1) = None) \<or>
   first_from is_next_section ls (s + 1) = Some (section_end ls s)"
  by (cases "first_from is_next_section ls (s + 1)") (simp_all add: section_end_def)

lemma section_end_props:
  assumes "s < length ls"
  shows "s < section_end ls s" and "section_end ls s \<le> length ls"
    and "section_end ls s < length ls \<Longrightarrow> startswith (strip (ls ! section_end ls s)) ''## ''"
    and "\<And>k. s < k \<Longrightarrow> k < section_end ls s \<Longrightarrow> \<not> startswith (strip (ls ! k)) ''## ''"
proof -
  show "s < section_end ls s"
    using assms section_end_cases [of ls s] by (auto simp: first_from_Some)
  show "section_end ls s \<le> length ls"
    using section_end_cases [of ls s] by (auto simp: first_from_Some)
  show "section_end ls s < length ls \<Longrightarrow> startswith (strip (ls ! section_end ls s)) ''## ''"
    using section_end_cases [of ls s] by (auto simp: first_from_Some is_next_section_iff)
  show "\<And>k. s < k \<Longrightarrow> k < section_end ls s \<Longrightarrow> \<not> startswith (strip (ls ! k)) ''## ''"
  proof -
    fix k assume k: "s < k" "k < section_end ls s"
    from section_end_cases [of ls s] show "\<not> startswith (strip (ls ! k)) ''## ''"
    proof
      assume "section_end ls s = length ls \<and> first_from is_next_section ls (s + 1) = None"
      with k show ?thesis by (auto simp: first_from_None is_next_section_iff)
    next
      assume "first_from is_next_section ls (s + 1) = Some (section_end ls s)"
      with k show ?thesis by (auto simp: first_from_Some is_next_section_iff)
    qed
  qed
qed

lemma bounds_unfold:
  "find_serena_section_bounds c =
     (case first_from is_section_start (split_nl c) 0 of
        None \<Rightarrow> None
      | Some s \<Rightarrow> Some (s, back_up (split_nl c) s (section_end (split_nl c) s)))"
  by (simp add: find_serena_section_bounds_def Let_def section_end_def split: option.splits)

lemma bounds_Some:
  "find_serena_section_bounds c = Some (s, e) \<longleftrightarrow>
     s < length (split_nl c) \<and> strip (split_nl c ! s) = heading \<and>
     (\<forall>k<s. strip (split_nl c ! k) \<noteq> heading) \<and>
     e = back_up (split_nl c) s (section_end (split_nl c) s)"
proof (cases "first_from is_section_start (split_nl c) 0")
  case None
  then have "find_serena_section_bounds c = None" by (simp add: bounds_unfold)
  moreover from None have "\<forall>k<length (split_nl c). strip (split_nl c ! k) \<noteq> heading"
    by (simp add: first_from_None is_section_start_def)
  ultimately show ?thesis by auto
next
  case (Some j)
  then have b: "find_serena_section_bounds c =
      Some (j, back_up (split_nl c) j (section_end (split_nl c) j))"
    by (simp add: bounds_unfold)
  from Some have j: "j < length (split_nl c)" "strip (split_nl c ! j) = heading"
    "\<forall>k<j. strip (split_nl c ! k) \<noteq> heading"
    by (simp_all add: first_from_Some is_section_start_def)
  have "s < length (split_nl c) \<and> strip (split_nl c ! s) = heading \<and>
     (\<forall>k<s. strip (split_nl c ! k) \<noteq> heading) \<longleftrightarrow> s = j"
    using j by (metis linorder_neqE_nat)
  with b show ?thesis by auto
qed

lemma bounds_range:
  assumes "find_serena_section_bounds c = Some (s, e)"
  shows "s < e" and "e \<le> section_end (split_nl c) s" and "e \<le> length (split_nl c)"
    and "strip (split_nl c ! (e - 1)) \<noteq> []"
    and "\<And>k. e \<le> k \<Longrightarrow> k < section_end (split_nl c) s \<Longrightarrow> strip (split_nl c ! k) = []"
proof -
  let ?L = "split_nl c" and ?b = "section_end (split_nl c) s"
  from assms have s: "s < length ?L" and h: "strip (?L ! s) = heading"
    and e: "e = back_up ?L s ?b" by (simp_all add: bounds_Some)
  have sb: "s < ?b" using s by (rule section_end_props)
  have ge: "s \<le> e" unfolding e using sb by (intro back_up_ge) simp
  show le: "e \<le> ?b" unfolding e by (rule back_up_le)
  show blank: "\<And>k. e \<le> k \<Longrightarrow> k < ?b \<Longrightarrow> strip (?L ! k) = []"
    unfolding e by (rule back_up_blank)
  show "s < e"
  proof (rule ccontr)
    assume "\<not> s < e"
    with ge have "e = s" by simp
    with sb blank [of s] have "strip (?L ! s) = []" by simp
    with h show False by (simp add: heading_def)
  qed
  then show "strip (?L ! (e - 1)) \<noteq> []"
    using back_up_stop [of s ?L ?b] by (simp add: e)
  show "e \<le> length ?L" using le section_end_props(2) [OF s] by simp
qed

lemma has_heading_line:
  assumes "find_serena_section_bounds c = Some (s, e)"
  shows "already_has_serena_section c"
proof -
  from assms have "s < length (split_nl c)" "strip (split_nl c ! s) = heading"
    by (simp_all add: bounds_Some)
  then have "str_in heading c"
    by (intro heading_line_in_content [of "split_nl c ! s"]) auto
  then show ?thesis by (simp add: already_has_serena_section_def)
qed

lemma update_failed:
  assumes "fs p = Some c" "already_has_serena_section c" "find_serena_section_bounds c = None"
  shows "update_agent_file fs p t = Inr ((False, ''Could not find Serena section bounds''), fs)"
  using assms by (simp add: update_agent_file_def)

lemma update_replaced:
  assumes "fs p = Some c" "find_serena_section_bounds c = Some (s, e)"
  shows "update_agent_file fs p t =
           Inr ((True, ''Replaced existing Serena section''),
                fs(p \<mapsto> join_nl (take (back_up (split_nl c) 0 s) (split_nl c) @ [[], []]
                                    @ split_nl t @ [[], []] @ drop e (split_nl c))))"
  using assms has_heading_line [OF assms(2)] by (simp add: update_agent_file_def Let_def)

lemma update_added:
  assumes "fs p = Some c" "\<not> already_has_serena_section c"
  shows "update_agent_file fs p t =
           Inr ((True, ''Added new Serena section''),
                fs(p \<mapsto> join_nl (take (find_insertion_point c) (split_nl c) @ [[], []]
                                    @ split_nl t @ [[], []]
                                    @ drop (find_insertion_point c) (split_nl c))))"
  using assms by (simp add: update_agent_file_def Let_def)

lemma spliced_lines:
  "split_nl (join_nl (take a (split_nl c) @ [[], []] @ split_nl t @ [[], []] @ drop b (split_nl c)))
     = take a (split_nl c) @ [[], []] @ split_nl t @ [[], []] @ drop b (split_nl c)"
proof (rule split_join)
  show "take a (split_nl c) @ [[], []] @ split_nl t @ [[], []] @ drop b (split_nl c) \<noteq> []"
    by simp
  show "\<forall>l\<in>set (take a (split_nl c) @ [[], []] @ split_nl t @ [[], []] @ drop b (split_nl c)).
          nl \<notin> set l"
    by (auto dest: in_set_takeD in_set_dropD split_nl_no_nl)
qed

lemma transform_failed:
  "already_has_serena_section c \<Longrightarrow> find_serena_section_bounds c = None \<Longrightarrow> transform c t = c"
  by (simp add: transform_def update_failed)

lemma transform_replaced:
  "find_serena_section_bounds c = Some (s, e) \<Longrightarrow>
     split_nl (transform c t) =
       take (back_up (split_nl c) 0 s) (split_nl c) @ [[], []] @ split_nl t @ [[], []]
         @ drop e (split_nl c)"
  by (simp add: transform_def update_replaced spliced_lines del: append.simps)

lemma transform_added:
  "\<not> already_has_serena_section c \<Longrightarrow>
     split_nl (transform c t) =
       take (find_insertion_point c) (split_nl c) @ [[], []] @ split_nl t @ [[], []]
         @ drop (find_insertion_point c) (split_nl c)"
  by (simp add: transform_def update_added spliced_lines del: append.simps)

section \<open>Blank lines and a second run\<close>

lemma anchor_is_level2:
  assumes "starts_with_anchor l" shows "startswith (strip l) ''## ''"
proof -
  from assms obtain sec where sec: "sec \<in> set final_sections" "startswith (strip l) sec"
    by (auto simp: starts_with_anchor_def)
  from sec(1) have "startswith sec ''## ''"
    by (auto simp: final_sections_def startswith_def)
  then obtain b where "sec = ''## '' @ b" unfolding startswith_iff by auto
  moreover from sec(2) obtain d where "strip l = sec @ d" unfolding startswith_iff by auto
  ultimately have "strip l = ''## '' @ (b @ d)" by simp
  then show ?thesis unfolding startswith_iff by blast
qed

lemma nonblank_take:
  assumes "a \<le> s" and "\<forall>k. a \<le> k \<and> k < s \<longrightarrow> strip (L ! k) = []"
  shows "filter (\<lambda>l. strip l \<noteq> []) (take a L) = filter (\<lambda>l. strip l \<noteq> []) (take s L)"
proof -
  let ?M = "take (s - a) (drop a L)"
  have "take (a + (s - a)) L = take a L @ ?M" by (rule take_add)
  with assms(1) have split: "take s L = take a L @ ?M" by simp
  have "\<forall>l \<in> set ?M. strip l = []"
  proof
    fix l assume "l \<in> set ?M"
    then obtain i where i: "i < length ?M" "l = ?M ! i" by (auto simp: in_set_conv_nth)
    then have "i < s - a" "a + i < length L" "l = L ! (a + i)" by auto
    with assms(2) show "strip l = []" by auto
  qed
  with split show ?thesis by (simp add: filter_empty_conv)
qed

lemma nonblank_drop:
  assumes "e \<le> b" and "\<forall>k. e \<le> k \<and> k < b \<longrightarrow> strip (L ! k) = []"
  shows "filter (\<lambda>l. strip l \<noteq> []) (drop e L) = filter (\<lambda>l. strip l \<noteq> []) (drop b L)"
proof -
  let ?M = "take (b - e) (drop e L)"
  have "drop e L = ?M @ drop (b - e) (drop e L)" by (simp only: append_take_drop_id)
  with assms(1) have split: "drop e L = ?M @ drop b L" by simp
  have "\<forall>l \<in> set ?M. strip l = []"
  proof
    fix l assume "l \<in> set ?M"
    then obtain i where i: "i < length ?M" "l = ?M ! i" by (auto simp: in_set_conv_nth)
    then have "i < b - e" "e + i < length L" "l = L ! (e + i)" by auto
    with assms(2) show "strip l = []" by auto
  qed
  with split show ?thesis by (metis (mono_tags, lifting) filter_append filter_empty_conv self_append_conv2)
qed

lemma suffix_blank_until_level2:
  assumes "e \<le> b" and "b \<le> length L"
    and "\<forall>k. e \<le> k \<and> k < b \<longrightarrow> strip (L ! k) = []"
    and "b < length L \<longrightarrow> startswith (strip (L ! b)) ''## ''"
  shows "\<forall>i < length (drop e L).
           (\<forall>m \<le> i. \<not> startswith (strip (drop e L ! m)) ''## '') \<longrightarrow> strip (drop e L ! i) = []"
proof (intro allI impI)
  fix i assume i: "i < length (drop e L)"
    and no: "\<forall>m \<le> i. \<not> startswith (strip (drop e L ! m)) ''## ''"
  from i have ei: "e + i < length L" by simp
  have "e + i < b"
  proof (rule ccontr)
    assume "\<not> e + i < b"
    with assms(1) have m: "b - e \<le> i" "e + (b - e) = b" by auto
    with ei have "b < length L" by simp
    with assms(4) have "startswith (strip (L ! b)) ''## ''" by simp
    moreover from no m(1) have "\<not> startswith (strip (drop e L ! (b - e))) ''## ''" by simp
    moreover have "drop e L ! (b - e) = L ! b" using m(2) assms(2) by simp
    ultimately show False by simp
  qed
  with assms(3) have "strip (L ! (e + i)) = []" by simp
  with ei show "strip (drop e L ! i) = []" by simp
qed

lemma drop_past: "L = X @ S \<Longrightarrow> length X = m \<Longrightarrow> m \<le> b \<Longrightarrow> drop b L = drop (b - m) S"
  by simp

lemma nth_past: "L = X @ S \<Longrightarrow> length X = m \<Longrightarrow> L ! (m + i) = S ! i"
  by (simp add: nth_append)

lemma rerun_nonblank:
  assumes L1: "split_nl c1 = P @ [[], []] @ (h # rest) @ [[], []] @ S"
    and T: "split_nl t = h # rest"
    and h: "strip h = heading"
    and rest: "\<forall>l \<in> set rest. \<not> startswith (strip l) ''## ''"
    and P: "\<forall>l \<in> set P. strip l \<noteq> heading"
    and S: "\<forall>i < length S. (\<forall>m \<le> i. \<not> startswith (strip (S ! m)) ''## '') \<longrightarrow> strip (S ! i) = []"
  shows "nonblank_lines (transform c1 t) = nonblank_lines c1"
proof -
  let ?nb = "\<lambda>l. strip l \<noteq> []"
  define A where "A = P @ [[], []]"
  define R where "R = rest @ [[], []]"
  define s where "s = length A"
  define m where "m = s + 1 + length R"
  let ?L = "split_nl c1"
  have L: "?L = A @ h # R @ S" by (simp add: L1 A_def R_def)
  have L': "?L = (A @ h # R) @ S" by (simp add: L)
  have lenAR: "length (A @ h # R) = m" by (simp add: m_def s_def)
  have len: "length ?L = m + length S" by (simp add: L m_def s_def)
  have sblank: "strip [] = []" by (simp add: strip_def)
  have hne: "heading \<noteq> []" by (simp add: heading_def)
  have before: "\<And>k. k < s \<Longrightarrow> strip (?L ! k) \<noteq> heading"
  proof -
    fix k assume k: "k < s"
    then have "?L ! k = A ! k" by (simp add: L s_def nth_append)
    moreover from k have "A ! k \<in> set A" by (simp add: s_def)
    ultimately have "?L ! k \<in> set P \<or> ?L ! k = []" by (auto simp: A_def)
    with P sblank hne show "strip (?L ! k) \<noteq> heading" by auto
  qed
  have at: "?L ! s = h" by (simp add: L s_def)
  have mid: "\<And>k. s < k \<Longrightarrow> k < m \<Longrightarrow> \<not> startswith (strip (?L ! k)) ''## ''"
  proof -
    fix k assume k: "s < k" "k < m"
    then have "?L ! k = R ! (k - s - 1)" "k - s - 1 < length R"
      by (auto simp: L s_def m_def nth_append nth_Cons')
    then have "?L ! k \<in> set R" by (metis nth_mem)
    then have "?L ! k \<in> set rest \<or> ?L ! k = []" by (auto simp: R_def)
    with rest sblank show "\<not> startswith (strip (?L ! k)) ''## ''"
      by (auto simp: startswith_def)
  qed
  have after: "\<And>i. ?L ! (m + i) = S ! i"
    using L' lenAR by (rule nth_past)
  have sL: "s < length ?L" by (simp add: len m_def)
  have b: "find_serena_section_bounds c1 = Some (s, back_up ?L s (section_end ?L s))"
    using sL at h before by (simp add: bounds_Some)
  let ?b = "section_end ?L s"
  let ?e = "back_up ?L s ?b"
  let ?a = "back_up ?L 0 s"
  note se = section_end_props [OF sL]
  note br = bounds_range [OF b]
  have mb: "m \<le> ?b"
  proof (rule ccontr)
    assume "\<not> m \<le> ?b"
    then have lt: "?b < m" by simp
    with len have "?b < length ?L" by simp
    then have "startswith (strip (?L ! ?b)) ''## ''" by (rule se(3))
    with mid [OF se(1) lt] show False by simp
  qed
  have new: "split_nl (transform c1 t) =
      take ?a ?L @ [[], []] @ (h # rest) @ [[], []] @ drop ?e ?L"
    using transform_replaced [OF b, of t] T by simp
  have 1: "filter ?nb (take ?a ?L) = filter ?nb (take s ?L)"
    by (rule nonblank_take) (auto intro: back_up_le back_up_blank)
  have "take s ?L = A" by (simp add: L s_def)
  then have 2: "filter ?nb (take s ?L) = filter ?nb P" by (simp add: A_def sblank)
  have 3: "filter ?nb (drop ?e ?L) = filter ?nb (drop ?b ?L)"
    by (rule nonblank_drop) (use br in auto)
  have "drop ?b ?L = drop (?b - m) S"
    using L' lenAR mb by (rule drop_past)
  moreover have "filter ?nb (drop 0 S) = filter ?nb (drop (?b - m) S)"
  proof (rule nonblank_drop)
    show "0 \<le> ?b - m" by simp
    show "\<forall>k. 0 \<le> k \<and> k < ?b - m \<longrightarrow> strip (S ! k) = []"
    proof (intro allI impI)
      fix k assume "0 \<le> k \<and> k < ?b - m"
      then have k: "m + k < ?b" by simp
      with se(2) len have kS: "k < length S" by simp
      have "\<forall>j \<le> k. \<not> startswith (strip (S ! j)) ''## ''"
      proof (intro allI impI)
        fix j assume "j \<le> k"
        with k have "s < m + j" "m + j < ?b" by (auto simp: m_def)
        then have "\<not> startswith (strip (?L ! (m + j))) ''## ''" by (rule se(4))
        then show "\<not> startswith (strip (S ! j)) ''## ''" by (simp add: after)
      qed
      with S kS show "strip (S ! k) = []" by simp
    qed
  qed
  ultimately have 4: "filter ?nb (drop ?b ?L) = filter ?nb S" by simp
  have "nonblank_lines (transform c1 t) =
          filter ?nb P @ filter ?nb (h # rest) @ filter ?nb S"
    unfolding nonblank_lines_def new using 1 2 3 4 by (simp add: sblank)
  moreover have "nonblank_lines c1 = filter ?nb P @ filter ?nb (h # rest) @ filter ?nb S"
    unfolding nonblank_lines_def L1 by (simp add: sblank)
  ultimately show ?thesis by simp
qed

section \<open>The properties\<close>





text \<open>
  Claim C5. For a document that can be read, the call adds a new section exactly when the
  content neither contains the heading string nor, lowered, the keyword \<^verbatim>\<open>serena\<close>;
  in every other case the call is in the replacing branch, which either replaces the
  section or reports that its bounds were not found.
\<close>

theorem insert_mode_iff_absent:
  assumes "fs p = Some content"
  shows "((\<exists>fs'. update_agent_file fs p t = Inr ((True, ''Added new Serena section''), fs'))
            \<longleftrightarrow> \<not> str_in heading content \<and> \<not> str_in ''serena'' (lower content)) \<and>
         ((\<exists>fs'. update_agent_file fs p t = Inr ((True, ''Replaced existing Serena section''), fs'))
            \<or> update_agent_file fs p t = Inr ((False, ''Could not find Serena section bounds''), fs)
            \<longleftrightarrow> str_in heading content \<or> str_in ''serena'' (lower content))"
proof (cases "already_has_serena_section content")
  case False
  from update_added [of fs p content t] assms False show ?thesis
    by (simp add: already_has_serena_section_def del: append.simps)
next
  case True
  show ?thesis
  proof (cases "find_serena_section_bounds content")
    case None
    from update_failed [of fs p content t] assms True None show ?thesis
      by (simp add: already_has_serena_section_def)
  next
    case (Some b)
    obtain s e where "b = (s, e)" by (cases b)
    with Some update_replaced [of fs p content s e t] assms True show ?thesis
      by (simp add: already_has_serena_section_def del: append.simps)
  qed
qed

theorem insert_mode_iff_absent_witness:
  "[''a.md'' \<mapsto> doc_anchor] ''a.md'' = Some doc_anchor \<and>
   ((\<exists>fs'. update_agent_file [''a.md'' \<mapsto> doc_anchor] ''a.md'' tmpl
             = Inr ((True, ''Added new Serena section''), fs'))
      \<longleftrightarrow> \<not> str_in heading doc_anchor \<and> \<not> str_in ''serena'' (lower doc_anchor)) \<and>
   \<not> str_in heading doc_anchor \<and> \<not> str_in ''serena'' (lower doc_anchor)"
proof -
  have h: "[''a.md'' \<mapsto> doc_anchor] ''a.md'' = Some doc_anchor" by simp
  have a: "\<not> str_in heading doc_anchor \<and> \<not> str_in ''serena'' (lower doc_anchor)"
    by code_simp
  from insert_mode_iff_absent [where fs = "[''a.md'' \<mapsto> doc_anchor]" and p = "''a.md''"
      and content = doc_anchor and t = tmpl, OF h] h a
  show ?thesis by blast
qed

lemma earliest_anchor:
  assumes "\<exists>l \<in> set L. starts_with_anchor l"
  shows "\<exists>a<length L. starts_with_anchor (L ! a) \<and> (\<forall>k<a. \<not> starts_with_anchor (L ! k))"
proof -
  let ?Q = "\<lambda>k. k < length L \<and> starts_with_anchor (L ! k)"
  from assms obtain j where "?Q j" by (auto simp: in_set_conv_nth)
  then have 1: "?Q (LEAST k. ?Q k)" by (rule LeastI)
  have "\<forall>k<(LEAST k. ?Q k). \<not> starts_with_anchor (L ! k)"
  proof (intro allI impI)
    fix k assume k: "k < (LEAST k. ?Q k)"
    then have "\<not> ?Q k" by (rule not_less_Least)
    moreover from k 1 have "k < length L" by simp
    ultimately show "\<not> starts_with_anchor (L ! k)" by simp
  qed
  with 1 show ?thesis by blast
qed

lemma insertion_point_anchor:
  assumes "a < length (split_nl c)" "starts_with_anchor (split_nl c ! a)"
    "\<forall>k<a. \<not> starts_with_anchor (split_nl c ! k)"
  shows "find_insertion_point c = back_up (split_nl c) 0 a"
proof -
  have "line_loop (split_nl c) 0 (length (split_nl c)) = min (length (split_nl c)) (0 + a)"
    using assms by (rule line_loop_first)
  with assms(1) have "line_loop (split_nl c) 0 (length (split_nl c)) = a" by simp
  with assms(1) show ?thesis by (simp add: find_insertion_point_def)
qed

lemma insertion_point_none:
  assumes "\<forall>l \<in> set (split_nl c). \<not> starts_with_anchor l"
  shows "find_insertion_point c = length (split_nl c)"
  using line_loop_none [OF assms] by (simp add: find_insertion_point_def)

text \<open>
  Claim C6. If some line of the document begins, once trimmed, with an anchor string, the
  insertion point lies at or before the earliest such line, every line between the insertion
  point and that line is blank, and the insertion point is the start of the document or
  follows a line that is not blank. If no line does, the insertion point is the end of the
  document. In the inserting branch the new lines are the old ones with the template,
  between two empty lines on each side, put in at the insertion point.
\<close>

theorem insertion_point_at_earliest_anchor:
  "(if \<exists>l \<in> set (split_nl content). starts_with_anchor l
    then \<exists>a<length (split_nl content).
           starts_with_anchor (split_nl content ! a) \<and>
           (\<forall>k<a. \<not> starts_with_anchor (split_nl content ! k)) \<and>
           find_insertion_point content \<le> a \<and>
           (\<forall>k. find_insertion_point content \<le> k \<and> k < a \<longrightarrow> strip (split_nl content ! k) = []) \<and>
           (find_insertion_point content = 0 \<or>
            strip (split_nl content ! (find_insertion_point content - 1)) \<noteq> [])
    else find_insertion_point content = length (split_nl content)) \<and>
   (\<not> already_has_serena_section content \<longrightarrow>
      split_nl (transform content template) =
        take (find_insertion_point content) (split_nl content) @ [[], []] @ split_nl template
          @ [[], []] @ drop (find_insertion_point content) (split_nl content))"
proof (intro conjI impI)
  show "if \<exists>l \<in> set (split_nl content). starts_with_anchor l
    then \<exists>a<length (split_nl content).
           starts_with_anchor (split_nl content ! a) \<and>
           (\<forall>k<a. \<not> starts_with_anchor (split_nl content ! k)) \<and>
           find_insertion_point content \<le> a \<and>
           (\<forall>k. find_insertion_point content \<le> k \<and> k < a \<longrightarrow> strip (split_nl content ! k) = []) \<and>
           (find_insertion_point content = 0 \<or>
            strip (split_nl content ! (find_insertion_point content - 1)) \<noteq> [])
    else find_insertion_point content = length (split_nl content)"
  proof (cases "\<exists>l \<in> set (split_nl content). starts_with_anchor l")
    case False
    then show ?thesis using insertion_point_none [of content] by simp
  next
    case True
    from earliest_anchor [OF True] obtain a where
      a: "a < length (split_nl content)" "starts_with_anchor (split_nl content ! a)"
        "\<forall>k<a. \<not> starts_with_anchor (split_nl content ! k)" by blast
    let ?p = "find_insertion_point content"
    have p: "?p = back_up (split_nl content) 0 a" using a by (rule insertion_point_anchor)
    have "?p \<le> a" unfolding p by (rule back_up_le)
    moreover have "\<forall>k. ?p \<le> k \<and> k < a \<longrightarrow> strip (split_nl content ! k) = []"
      unfolding p using back_up_blank by blast
    moreover have "?p = 0 \<or> strip (split_nl content ! (?p - 1)) \<noteq> []"
      unfolding p using back_up_stop [of 0 "split_nl content" a] by auto
    ultimately show ?thesis using a True by auto
  qed
next
  assume "\<not> already_has_serena_section content"
  then show "split_nl (transform content template) =
        take (find_insertion_point content) (split_nl content) @ [[], []] @ split_nl template
          @ [[], []] @ drop (find_insertion_point content) (split_nl content)"
    by (rule transform_added)
qed

theorem insertion_point_at_earliest_anchor_witness:
  "(\<exists>l \<in> set (split_nl doc_anchor). starts_with_anchor l) \<and>
   \<not> already_has_serena_section doc_anchor \<and>
   (\<exists>a<length (split_nl doc_anchor).
           starts_with_anchor (split_nl doc_anchor ! a) \<and>
           (\<forall>k<a. \<not> starts_with_anchor (split_nl doc_anchor ! k)) \<and>
           find_insertion_point doc_anchor \<le> a \<and>
           (\<forall>k. find_insertion_point doc_anchor \<le> k \<and> k < a \<longrightarrow> strip (split_nl doc_anchor ! k) = []) \<and>
           (find_insertion_point doc_anchor = 0 \<or>
            strip (split_nl doc_anchor ! (find_insertion_point doc_anchor - 1)) \<noteq> [])) \<and>
   split_nl (transform doc_anchor tmpl) =
        take (find_insertion_point doc_anchor) (split_nl doc_anchor) @ [[], []] @ split_nl tmpl
          @ [[], []] @ drop (find_insertion_point doc_anchor) (split_nl doc_anchor)"
proof -
  have 1: "\<exists>l \<in> set (split_nl doc_anchor). starts_with_anchor l"
  proof
    show "''## Example Interactions'' \<in> set (split_nl doc_anchor)" by code_simp
    show "starts_with_anchor ''## Example Interactions''"
      unfolding starts_with_anchor_def by code_simp
  qed
  have 2: "\<not> already_has_serena_section doc_anchor" by code_simp
  note t = insertion_point_at_earliest_anchor [where content = doc_anchor and template = tmpl]
  from t 1 have 3: "\<exists>a<length (split_nl doc_anchor).
           starts_with_anchor (split_nl doc_anchor ! a) \<and>
           (\<forall>k<a. \<not> starts_with_anchor (split_nl doc_anchor ! k)) \<and>
           find_insertion_point doc_anchor \<le> a \<and>
           (\<forall>k. find_insertion_point doc_anchor \<le> k \<and> k < a \<longrightarrow> strip (split_nl doc_anchor ! k) = []) \<and>
           (find_insertion_point doc_anchor = 0 \<or>
            strip (split_nl doc_anchor ! (find_insertion_point doc_anchor - 1)) \<noteq> [])"
    by (simp only: if_True)
  from t 2 have 4: "split_nl (transform doc_anchor tmpl) =
        take (find_insertion_point doc_anchor) (split_nl doc_anchor) @ [[], []] @ split_nl tmpl
          @ [[], []] @ drop (find_insertion_point doc_anchor) (split_nl doc_anchor)"
    by blast
  from 1 2 3 4 show ?thesis by blast
qed




text \<open>
  Claim C9. If some line of the document trims to the heading, the bounds \<open>(s, e)\<close> are
  found, with \<open>s < e\<close>, line \<open>s\<close> trimming to the heading and the start of the replaced range
  at or before \<open>s\<close>. And a call that fails fails with the message of the missing bounds,
  on a document that holds the keyword \<^verbatim>\<open>serena\<close> once lowered and no line trimming to the
  heading.
\<close>

theorem exact_heading_has_bounds:
  "(l \<in> set (split_nl content) \<and> strip l = heading \<longrightarrow>
      (\<exists>s e. find_serena_section_bounds content = Some (s, e) \<and> s < e \<and>
             e \<le> length (split_nl content) \<and> strip (split_nl content ! s) = heading \<and>
             back_up (split_nl content) 0 s \<le> s)) \<and>
   (fs p = Some content' \<and>
    update_agent_file fs p template = Inr ((False, message), fs') \<longrightarrow>
      message = ''Could not find Serena section bounds'' \<and>
      str_in ''serena'' (lower content') \<and>
      (\<forall>l' \<in> set (split_nl content'). strip l' \<noteq> heading))"
proof (rule conjI; rule impI)
  assume h: "l \<in> set (split_nl content) \<and> strip l = heading"
  then have "find_serena_section_bounds content \<noteq> None" by (auto simp: bounds_None)
  then obtain s e where b: "find_serena_section_bounds content = Some (s, e)" by auto
  from bounds_range [OF b] have "s < e" "e \<le> length (split_nl content)" by auto
  moreover from b have "strip (split_nl content ! s) = heading" by (simp add: bounds_Some)
  moreover have "back_up (split_nl content) 0 s \<le> s" by (rule back_up_le)
  ultimately show "\<exists>s e. find_serena_section_bounds content = Some (s, e) \<and> s < e \<and>
             e \<le> length (split_nl content) \<and> strip (split_nl content ! s) = heading \<and>
             back_up (split_nl content) 0 s \<le> s" using b by blast
next
  assume f: "fs p = Some content' \<and>
    update_agent_file fs p template = Inr ((False, message), fs')"
  have has: "already_has_serena_section content'"
  proof (rule ccontr)
    assume "\<not> already_has_serena_section content'"
    with update_added [of fs p content' template] f show False by simp
  qed
  have none: "find_serena_section_bounds content' = None"
  proof (cases "find_serena_section_bounds content'")
    case None then show ?thesis .
  next
    case (Some b)
    obtain s e where "b = (s, e)" by (cases b)
    with Some update_replaced [of fs p content' s e template] f show ?thesis by simp
  qed
  from update_failed [of fs p content' template] f has none
  have m: "message = ''Could not find Serena section bounds''" by simp
  from none have nh: "\<forall>l' \<in> set (split_nl content'). strip l' \<noteq> heading"
    by (simp add: bounds_None)
  from has have "str_in ''serena'' (lower content')"
    using heading_gives_keyword by (auto simp: already_has_serena_section_def)
  with m nh show "message = ''Could not find Serena section bounds'' \<and>
      str_in ''serena'' (lower content') \<and>
      (\<forall>l' \<in> set (split_nl content'). strip l' \<noteq> heading)" by simp
qed

theorem exact_heading_has_bounds_witness:
  "(''  ## Serena MCP Integration '' \<in> set (split_nl doc_section) \<and>
    strip ''  ## Serena MCP Integration '' = heading) \<and>
   (\<exists>s e. find_serena_section_bounds doc_section = Some (s, e) \<and> s < e \<and>
             e \<le> length (split_nl doc_section) \<and> strip (split_nl doc_section ! s) = heading \<and>
             back_up (split_nl doc_section) 0 s \<le> s) \<and>
   ([''a.md'' \<mapsto> doc_mention] ''a.md'' = Some doc_mention \<and>
    update_agent_file [''a.md'' \<mapsto> doc_mention] ''a.md'' tmpl
      = Inr ((False, ''Could not find Serena section bounds''), [''a.md'' \<mapsto> doc_mention])) \<and>
   str_in ''serena'' (lower doc_mention) \<and>
   \<not> (\<exists>l' \<in> set (split_nl doc_mention). strip l' = heading)"
proof -
  have 1: "''  ## Serena MCP Integration '' \<in> set (split_nl doc_section) \<and>
    strip ''  ## Serena MCP Integration '' = heading" by code_simp
  have 2: "[''a.md'' \<mapsto> doc_mention] ''a.md'' = Some doc_mention" by simp
  have "already_has_serena_section doc_mention" "find_serena_section_bounds doc_mention = None"
    by code_simp+
  with 2 have 3: "update_agent_file [''a.md'' \<mapsto> doc_mention] ''a.md'' tmpl
      = Inr ((False, ''Could not find Serena section bounds''), [''a.md'' \<mapsto> doc_mention])"
    by (simp add: update_failed)
  note t = exact_heading_has_bounds [where l = "''  ## Serena MCP Integration ''"
      and content = doc_section and fs = "[''a.md'' \<mapsto> doc_mention]" and p = "''a.md''"
      and content' = doc_mention and template = tmpl
      and message = "''Could not find Serena section bounds''"
      and fs' = "[''a.md'' \<mapsto> doc_mention]"]
  from t 1 2 3 show ?thesis by blast
qed

text \<open>
  Claim C10. Two calls on documents with the same content and with the same template, in
  any two file systems and under any two paths, return the same pair of success flag and
  message and leave the same content in the document, which is a function of the content
  and the template alone.
\<close>

theorem update_depends_on_content_and_template:
  assumes "fs1 p1 = Some content" and "fs2 p2 = Some content"
  shows "\<exists>r f1 f2. update_agent_file fs1 p1 template = Inr (r, f1) \<and>
                    update_agent_file fs2 p2 template = Inr (r, f2) \<and>
                    f1 p1 = f2 p2 \<and> f1 p1 = Some (transform content template)"
proof (cases "already_has_serena_section content")
  case False
  from update_added [of fs1 p1 content template] update_added [of fs2 p2 content template]
    update_added [of "Map.empty(''doc'' \<mapsto> content)" "''doc''" content template]
    assms False show ?thesis
    by (auto simp: transform_def simp del: append.simps)
next
  case True
  show ?thesis
  proof (cases "find_serena_section_bounds content")
    case None
    from update_failed [of fs1 p1 content template] update_failed [of fs2 p2 content template]
      update_failed [of "Map.empty(''doc'' \<mapsto> content)" "''doc''" content template]
      assms True None show ?thesis
      by (auto simp: transform_def)
  next
    case (Some b)
    obtain s e where "b = (s, e)" by (cases b)
    with Some update_replaced [of fs1 p1 content s e template]
      update_replaced [of fs2 p2 content s e template]
      update_replaced [of "Map.empty(''doc'' \<mapsto> content)" "''doc''" content s e template]
      assms show ?thesis
      by (auto simp: transform_def simp del: append.simps)
  qed
qed

theorem update_depends_on_content_and_template_witness:
  "[''a.md'' \<mapsto> doc_section] ''a.md'' = Some doc_section \<and>
   [''b.md'' \<mapsto> doc_section, ''c.md'' \<mapsto> doc_anchor] ''b.md'' = Some doc_section \<and>
   (\<exists>r f1 f2. update_agent_file [''a.md'' \<mapsto> doc_section] ''a.md'' tmpl = Inr (r, f1) \<and>
               update_agent_file [''b.md'' \<mapsto> doc_section, ''c.md'' \<mapsto> doc_anchor] ''b.md'' tmpl
                 = Inr (r, f2) \<and>
               f1 ''a.md'' = f2 ''b.md'' \<and> f1 ''a.md'' = Some (transform doc_section tmpl))"
proof -
  have 1: "[''a.md'' \<mapsto> doc_section] ''a.md'' = Some doc_section" by simp
  have 2: "[''b.md'' \<mapsto> doc_section, ''c.md'' \<mapsto> doc_anchor] ''b.md'' = Some doc_section"
    by simp
  from update_depends_on_content_and_template [where ?fs1.0 = "[''a.md'' \<mapsto> doc_section]"
      and ?p1.0 = "''a.md''" and ?fs2.0 = "[''b.md'' \<mapsto> doc_section, ''c.md'' \<mapsto> doc_anchor]"
      and ?p2.0 = "''b.md''" and content = doc_section and template = tmpl, OF 1 2] 1 2
  show ?thesis by blast
qed

text \<open>
  Claim C4, as amended. If some line trims to the heading, the bounds \<open>(s, e)\<close> are found,
  \<open>s\<close> being the first such line. With \<open>b\<close> the first line after \<open>s\<close> whose trimmed text begins
  with \<^verbatim>\<open>"## "\<close> (a level-2 heading), or the end of the document when there is none,
  \<open>e\<close> lies in \<open>s < e \<le> b\<close>, the lines from \<open>e\<close> up to \<open>b\<close> are blank and the line before
  \<open>e\<close> is not. A level-1 heading does not end the section.
\<close>

theorem section_end_boundary:
  assumes "l \<in> set (split_nl content)" and "strip l = heading"
  shows "\<exists>s e b. find_serena_section_bounds content = Some (s, e) \<and>
           s < length (split_nl content) \<and> strip (split_nl content ! s) = heading \<and>
           (\<forall>k<s. strip (split_nl content ! k) \<noteq> heading) \<and>
           s < b \<and> b \<le> length (split_nl content) \<and>
           (b < length (split_nl content) \<longrightarrow> startswith (strip (split_nl content ! b)) ''## '') \<and>
           (\<forall>k. s < k \<and> k < b \<longrightarrow> \<not> startswith (strip (split_nl content ! k)) ''## '') \<and>
           s < e \<and> e \<le> b \<and>
           (\<forall>k. e \<le> k \<and> k < b \<longrightarrow> strip (split_nl content ! k) = []) \<and>
           strip (split_nl content ! (e - 1)) \<noteq> []"
proof -
  let ?L = "split_nl content"
  from assms have "find_serena_section_bounds content \<noteq> None" by (auto simp: bounds_None)
  then obtain s e where b: "find_serena_section_bounds content = Some (s, e)" by auto
  then have s: "s < length ?L" "strip (?L ! s) = heading" "\<forall>k<s. strip (?L ! k) \<noteq> heading"
    by (simp_all add: bounds_Some)
  note se = section_end_props [OF s(1)]
  note br = bounds_range [OF b]
  have "s < section_end ?L s \<and> section_end ?L s \<le> length ?L \<and>
        (section_end ?L s < length ?L \<longrightarrow> startswith (strip (?L ! section_end ?L s)) ''## '') \<and>
        (\<forall>k. s < k \<and> k < section_end ?L s \<longrightarrow> \<not> startswith (strip (?L ! k)) ''## '')"
    using se by blast
  moreover have "s < e \<and> e \<le> section_end ?L s \<and>
           (\<forall>k. e \<le> k \<and> k < section_end ?L s \<longrightarrow> strip (?L ! k) = []) \<and>
           strip (?L ! (e - 1)) \<noteq> []"
    using br by blast
  ultimately show ?thesis using b s by blast
qed

theorem section_end_boundary_counterexample:
  "find_serena_section_bounds ''## Serena MCP Integration\<newline>body\<newline># Next\<newline>more'' = Some (0, 4) \<and>
   heading_same_or_higher (split_nl ''## Serena MCP Integration\<newline>body\<newline># Next\<newline>more'' ! 2)"
  by code_simp

theorem section_end_boundary_witness:
  "''  ## Serena MCP Integration '' \<in> set (split_nl doc_section) \<and>
   strip ''  ## Serena MCP Integration '' = heading \<and>
   (\<exists>s e b. find_serena_section_bounds doc_section = Some (s, e) \<and>
           s < length (split_nl doc_section) \<and> strip (split_nl doc_section ! s) = heading \<and>
           (\<forall>k<s. strip (split_nl doc_section ! k) \<noteq> heading) \<and>
           s < b \<and> b \<le> length (split_nl doc_section) \<and>
           (b < length (split_nl doc_section) \<longrightarrow> startswith (strip (split_nl doc_section ! b)) ''## '') \<and>
           (\<forall>k. s < k \<and> k < b \<longrightarrow> \<not> startswith (strip (split_nl doc_section ! k)) ''## '') \<and>
           s < e \<and> e \<le> b \<and>
           (\<forall>k. e \<le> k \<and> k < b \<longrightarrow> strip (split_nl doc_section ! k) = []) \<and>
           strip (split_nl doc_section ! (e - 1)) \<noteq> [])"
proof -
  have 1: "''  ## Serena MCP Integration '' \<in> set (split_nl doc_section)" by code_simp
  have 2: "strip ''  ## Serena MCP Integration '' = heading" by code_simp
  from section_end_boundary [OF 1 2] 1 2 show ?thesis by blast
qed


lemma no_heading_line:
  assumes "\<not> already_has_serena_section c" and "l \<in> set (split_nl c)"
  shows "strip l \<noteq> heading"
  using assms heading_line_in_content [of l c] by (auto simp: already_has_serena_section_def)

lemma insertion_suffix:
  "\<forall>i < length (drop (find_insertion_point c) (split_nl c)).
     (\<forall>m \<le> i. \<not> startswith (strip (drop (find_insertion_point c) (split_nl c) ! m)) ''## '')
       \<longrightarrow> strip (drop (find_insertion_point c) (split_nl c) ! i) = []"
proof (cases "\<exists>l \<in> set (split_nl c). starts_with_anchor l")
  case False
  then have "find_insertion_point c = length (split_nl c)"
    using insertion_point_none [of c] by simp
  then show ?thesis by simp
next
  case True
  from earliest_anchor [OF True] obtain a where
    a: "a < length (split_nl c)" "starts_with_anchor (split_nl c ! a)"
       "\<forall>k<a. \<not> starts_with_anchor (split_nl c ! k)" by blast
  have p: "find_insertion_point c = back_up (split_nl c) 0 a" using a by (rule insertion_point_anchor)
  show ?thesis unfolding p
  proof (rule suffix_blank_until_level2)
    show "back_up (split_nl c) 0 a \<le> a" by (rule back_up_le)
    show "a \<le> length (split_nl c)" using a(1) by simp
    show "\<forall>k. back_up (split_nl c) 0 a \<le> k \<and> k < a \<longrightarrow> strip (split_nl c ! k) = []"
      using back_up_blank by blast
    show "a < length (split_nl c) \<longrightarrow> startswith (strip (split_nl c ! a)) ''## ''"
      using a(2) by (simp add: anchor_is_level2)
  qed
qed

text \<open>
  Claim C1, as amended. Let the first line of the template trim to the heading and no
  other line of the template begin, once trimmed, with \<^verbatim>\<open>"## "\<close>. Then running the
  transformation a second time changes blank lines at most: the lines that are not blank
  are the same, in the same order, after two runs as after one. (A document whose section
  bounds are not found is left as it is by every run.)
\<close>

theorem second_run_keeps_nonblank_lines:
  assumes "split_nl template = h # rest" and "strip h = heading"
    and "\<forall>l \<in> set rest. \<not> startswith (strip l) ''## ''"
  shows "nonblank_lines (transform (transform content template) template)
           = nonblank_lines (transform content template)"
proof (cases "find_serena_section_bounds content")
  case (Some bd)
  obtain s e where bd: "bd = (s, e)" by (cases bd)
  with Some have b: "find_serena_section_bounds content = Some (s, e)" by simp
  let ?L = "split_nl content"
  let ?a = "back_up ?L 0 s"
  from b have s: "s < length ?L" "\<forall>k<s. strip (?L ! k) \<noteq> heading" by (simp_all add: bounds_Some)
  note br = bounds_range [OF b]
  note se = section_end_props [OF s(1)]
  show ?thesis
  proof (rule rerun_nonblank [where P = "take ?a ?L" and S = "drop e ?L" and h = h and rest = rest])
    show "split_nl (transform content template) =
            take ?a ?L @ [[], []] @ (h # rest) @ [[], []] @ drop e ?L"
      using transform_replaced [OF b, of template] assms(1) by simp
    show "split_nl template = h # rest" by (rule assms(1))
    show "strip h = heading" by (rule assms(2))
    show "\<forall>l \<in> set rest. \<not> startswith (strip l) ''## ''" by (rule assms(3))
    show "\<forall>l \<in> set (take ?a ?L). strip l \<noteq> heading"
    proof
      fix l assume "l \<in> set (take ?a ?L)"
      then obtain k where "k < length (take ?a ?L)" "l = take ?a ?L ! k"
        by (auto simp: in_set_conv_nth)
      moreover have "?a \<le> s" by (rule back_up_le)
      ultimately have "k < s" "l = ?L ! k" by auto
      with s(2) show "strip l \<noteq> heading" by simp
    qed
    show "\<forall>i < length (drop e ?L).
           (\<forall>m \<le> i. \<not> startswith (strip (drop e ?L ! m)) ''## '') \<longrightarrow> strip (drop e ?L ! i) = []"
    proof (rule suffix_blank_until_level2)
      show "e \<le> section_end ?L s" by (rule br(2))
      show "section_end ?L s \<le> length ?L" by (rule se(2))
      show "\<forall>k. e \<le> k \<and> k < section_end ?L s \<longrightarrow> strip (?L ! k) = []" using br(5) by blast
      show "section_end ?L s < length ?L \<longrightarrow> startswith (strip (?L ! section_end ?L s)) ''## ''"
        using se(3) by blast
    qed
  qed
next
  case None
  show ?thesis
  proof (cases "already_has_serena_section content")
    case True
    with None have "transform content template = content" by (simp add: transform_failed)
    then show ?thesis by simp
  next
    case False
    let ?L = "split_nl content"
    let ?p = "find_insertion_point content"
    show ?thesis
    proof (rule rerun_nonblank [where P = "take ?p ?L" and S = "drop ?p ?L" and h = h and rest = rest])
      show "split_nl (transform content template) =
              take ?p ?L @ [[], []] @ (h # rest) @ [[], []] @ drop ?p ?L"
        using transform_added [OF False, of template] assms(1) by simp
      show "split_nl template = h # rest" by (rule assms(1))
      show "strip h = heading" by (rule assms(2))
      show "\<forall>l \<in> set rest. \<not> startswith (strip l) ''## ''" by (rule assms(3))
      show "\<forall>l \<in> set (take ?p ?L). strip l \<noteq> heading"
        using no_heading_line [OF False] by (auto dest: in_set_takeD)
      show "\<forall>i < length (drop ?p ?L).
             (\<forall>m \<le> i. \<not> startswith (strip (drop ?p ?L ! m)) ''## '') \<longrightarrow> strip (drop ?p ?L ! i) = []"
        by (rule insertion_suffix)
    qed
  qed
qed

theorem second_run_keeps_nonblank_lines_counterexample:
  "transform (transform ''abc'' ''## Serena MCP Integration\<newline>new'') ''## Serena MCP Integration\<newline>new''
     \<noteq> transform ''abc'' ''## Serena MCP Integration\<newline>new'' \<and>
   split_nl (transform ''abc'' ''## Serena MCP Integration\<newline>new'')
     = [''abc'', [], [], ''## Serena MCP Integration'', ''new'', [], []] \<and>
   split_nl (transform (transform ''abc'' ''## Serena MCP Integration\<newline>new'') ''## Serena MCP Integration\<newline>new'')
     = [''abc'', [], [], ''## Serena MCP Integration'', ''new'', [], [], [], []] \<and>
   nonblank_lines (transform (transform ''abc'' ''x'') ''x'') = [''abc'', ''x'', ''x'']"
  by code_simp

theorem second_run_keeps_nonblank_lines_witness:
  "split_nl tmpl = [''## Serena MCP Integration'', ''new''] \<and>
   strip ''## Serena MCP Integration'' = heading \<and>
   \<not> startswith (strip ''new'') ''## '' \<and>
   nonblank_lines (transform (transform doc_section tmpl) tmpl)
     = nonblank_lines (transform doc_section tmpl) \<and>
   nonblank_lines (transform doc_section tmpl)
     = [''intro'', ''## Serena MCP Integration'', ''new'', ''## See Also'', ''tail'']"
proof -
  have 1: "split_nl tmpl = ''## Serena MCP Integration'' # [''new'']" by code_simp
  have 2: "strip ''## Serena MCP Integration'' = heading" by code_simp
  have 3: "\<not> startswith (strip ''new'') ''## ''" by code_simp
  then have 4: "\<forall>l \<in> set [''new'']. \<not> startswith (strip l) ''## ''" by simp
  have 5: "nonblank_lines (transform doc_section tmpl)
     = [''intro'', ''## Serena MCP Integration'', ''new'', ''## See Also'', ''tail'']" by code_simp
  from second_run_keeps_nonblank_lines [OF 1 2 4, of doc_section] 1 2 3 5
  show ?thesis by simp
qed







end
